theory Spec2Isabelle
  imports Complex_Main
begin

section \<open>The LIBOR market model of \<^verbatim>\<open>fms_lmm.h\<close>\<close>

text \<open>
  The class template \<^verbatim>\<open>fms::lmm<T, F>\<close> keeps three vectors (the times \<^verbatim>\<open>t\<close>, the
  futures quotes \<^verbatim>\<open>phi\<close>, the volatilities \<^verbatim>\<open>sigma\<close>) and a correlated Brownian
  driver \<^verbatim>\<open>B\<close>. The numeric parameters \<^verbatim>\<open>T\<close> and \<^verbatim>\<open>F\<close> are taken to be the field
  of real numbers: \<open>+\<close>, \<open>-\<close>, \<open>*\<close>, \<open>/\<close> and \<open>exp\<close> are the exact operations, so the
  rounding of a machine type is outside this development.
\<close>

subsection \<open>Failures\<close>

text \<open>
  \<open>OutOfRange\<close> is the exception of the failed \<^verbatim>\<open>ensure\<close>. \<open>UndefinedRead\<close> is not an
  exception: it marks an unchecked indexed read past the end of a vector or of the
  driver's components, where the C++ program has no defined behaviour.
\<close>

datatype error = OutOfRange | UndefinedRead

text \<open>
  Modelled from the spec: the macro \<^verbatim>\<open>ensure\<close> comes from a header that is not part of
  the sources. It checks its condition and, when the condition is false, leaves the
  calling function at once with the failure that the specification names \<open>OutOfRange\<close>.
\<close>

definition ensure :: "bool \<Rightarrow> error + unit" where
  "ensure c = (if c then Inr () else Inl OutOfRange)"

subsection \<open>The Brownian driver\<close>

text \<open>
  Modelled from the spec: the class \<^verbatim>\<open>fms::brownian\<close> of \<^verbatim>\<open>fms_brownian.h\<close> is not
  part of the sources. Its state is the current time and the realized values of its
  \<open>d\<close> correlated components (\<open>d\<close> is the length of \<open>path\<close>); \<^verbatim>\<open>reset\<close> goes back to time
  0 with a zero path; the indexed read gives component \<open>k\<close> for \<open>k < d\<close> and is not
  checked. How the driver samples its next state is not modelled: every function
  below that advances the driver takes that operation as the argument \<open>adv\<close>, a
  function from the target time, the random source and the driver to the new driver
  and the used random source. The operation returns for every target time; the
  specification names no failure of the driver.
\<close>

record brownian =
  time :: real
  path :: "real list"

definition brownian_reset :: "brownian \<Rightarrow> brownian" where
  "brownian_reset b = \<lparr>time = 0, path = replicate (length (path b)) 0\<rparr>"

definition brownian_at :: "brownian \<Rightarrow> nat \<Rightarrow> real option" where
  "brownian_at b k = (if k < length (path b) then Some (path b ! k) else None)"

subsection \<open>The model\<close>

record lmm =
  t :: "real list"
  phi :: "real list"
  sigma :: "real list"
  B :: brownian

text \<open>
  The constructor copies \<open>n\<close> cells from each of the three pointers; a pointer is the
  function from an offset to the cell at that offset. The driver \<^verbatim>\<open>B(e)\<close>, built from
  the correlation by the absent class, is passed in as built.
\<close>

definition lmm_ctor ::
  "nat \<Rightarrow> (nat \<Rightarrow> real) \<Rightarrow> (nat \<Rightarrow> real) \<Rightarrow> (nat \<Rightarrow> real) \<Rightarrow> brownian \<Rightarrow> lmm" where
  "lmm_ctor n tp php sgp b0 =
     \<lparr>t = map tp [0..<n], phi = map php [0..<n], sigma = map sgp [0..<n], B = b0\<rparr>"

definition size_lmm :: "lmm \<Rightarrow> nat" where
  "size_lmm m = length (t m)"

definition reset :: "lmm \<Rightarrow> lmm" where
  "reset m = m\<lparr>B := brownian_reset (B m)\<rparr>"

text \<open>The unchecked \<^verbatim>\<open>operator[]\<close> of a vector.\<close>

definition vec_at :: "real list \<Rightarrow> nat \<Rightarrow> real option" where
  "vec_at xs k = (if k < length xs then Some (xs ! k) else None)"

subsection \<open>\<^verbatim>\<open>std::upper_bound\<close>\<close>

text \<open>
  The library algorithm is the binary search that halves the length of the range
  \<open>[first, first + len)\<close>: it compares \<open>u\<close> with the middle cell and keeps the left half
  when \<open>u\<close> is smaller, the right half without the middle cell otherwise. The iterators
  are offsets from \<^verbatim>\<open>t.begin()\<close>, so the result \<open>length xs\<close> is \<^verbatim>\<open>t.end()\<close>.
\<close>

function upper_bound_loop :: "real list \<Rightarrow> real \<Rightarrow> nat \<Rightarrow> nat \<Rightarrow> nat" where
  "upper_bound_loop xs u first len =
     (if 0 < len then
        (let half = len div 2; middle = first + half
         in if u < xs ! middle then upper_bound_loop xs u first half
            else upper_bound_loop xs u (middle + 1) (len - half - 1))
      else first)"
  by pat_completeness auto
termination
  by (relation "measure (\<lambda>(xs, u, first, len). len)") auto

declare upper_bound_loop.simps [simp del]

definition upper_bound :: "real list \<Rightarrow> real \<Rightarrow> nat" where
  "upper_bound xs u = upper_bound_loop xs u 0 (length xs)"

subsection \<open>\<^verbatim>\<open>lmm::advance\<close>\<close>

text \<open>
  One turn of the loop at index \<open>k\<close>: the futures value is stored in cell \<open>k\<close> of the
  output buffer, then, for \<open>k > 0\<close>, the convexity adjustment is subtracted from that
  cell. The output buffer is the caller's memory behind the pointer \<^verbatim>\<open>f_\<close>, a function
  from offsets to cells, apart from the model's own vectors. The read \<^verbatim>\<open>t[k-1]\<close> is
  in range, since the loop runs for \<open>k < t.size()\<close> only.
\<close>

definition advance_body :: "lmm \<Rightarrow> real \<Rightarrow> nat \<Rightarrow> (nat \<Rightarrow> real) \<Rightarrow> (nat \<Rightarrow> real) option" where
  "advance_body m u k f =
     (case vec_at (phi m) k of None \<Rightarrow> None | Some p \<Rightarrow>
      case vec_at (sigma m) k of None \<Rightarrow> None | Some s \<Rightarrow>
      case brownian_at (B m) k of None \<Rightarrow> None | Some b \<Rightarrow>
        (let f1 = f(k := p * exp (s * b - s * s * u / 2))
         in if 0 < k then
              (let dt = t m ! (k - 1) - u
               in Some (f1(k := f1 k - s * s * dt * dt / 2)))
            else Some f1))"

text \<open>
  The loop \<^verbatim>\<open>for (size_t k = j; k < t.size(); ++k)\<close>. It returns the buffer and, when
  a read was out of range, the mark of that read with the buffer as it was then.
\<close>

function advance_loop :: "lmm \<Rightarrow> real \<Rightarrow> nat \<Rightarrow> (nat \<Rightarrow> real) \<Rightarrow> error option \<times> (nat \<Rightarrow> real)" where
  "advance_loop m u k f =
     (if k < length (t m) then
        (case advance_body m u k f of
           None \<Rightarrow> (Some UndefinedRead, f)
         | Some f' \<Rightarrow> advance_loop m u (k + 1) f')
      else (None, f))"
  by pat_completeness auto
termination
  by (relation "measure (\<lambda>(m, u, k, f). length (t m) - k)") auto

declare advance_loop.simps [simp del]

text \<open>
  \<open>advance adv u f r m\<close> is the call \<^verbatim>\<open>m.advance(u, f, r)\<close>. Its value is the outcome
  (the returned index, or the failure), the model after the call, the buffer after
  the call and the random source after the call. A failed \<^verbatim>\<open>ensure\<close> leaves the
  function before anything is changed.
\<close>

definition advance ::
  "(real \<Rightarrow> 'r \<Rightarrow> brownian \<Rightarrow> brownian \<times> 'r) \<Rightarrow> real \<Rightarrow> (nat \<Rightarrow> real) \<Rightarrow> 'r \<Rightarrow> lmm
     \<Rightarrow> (error + nat) \<times> lmm \<times> (nat \<Rightarrow> real) \<times> 'r" where
  "advance adv u f r m =
     (let tj = upper_bound (t m) u
      in case ensure (tj \<noteq> length (t m)) of
           Inl e \<Rightarrow> (Inl e, m, f, r)
         | Inr _ \<Rightarrow>
             (let j = tj - 0;
                  (b', r') = adv u r (B m);
                  m' = m\<lparr>B := b'\<rparr>
              in case advance_loop m' u j f of
                   (Some e, f') \<Rightarrow> (Inl e, m', f', r')
                 | (None, f') \<Rightarrow> (Inr j, m', f', r')))"

text \<open>
  The three vectors of a constructed model have one length; the members are public,
  so this is a property of the models the constructor makes, not of the type.
\<close>

definition lmm_inv :: "lmm \<Rightarrow> bool" where
  "lmm_inv m \<longleftrightarrow> length (phi m) = length (t m) \<and> length (sigma m) = length (t m)"

text \<open>
  The value that one call leaves in cell \<open>k\<close> of the buffer, as the two assignments of
  the loop body compute it from the model with the advanced driver.
\<close>

definition written :: "lmm \<Rightarrow> real \<Rightarrow> nat \<Rightarrow> real" where
  "written m u k =
     (let fut = phi m ! k * exp (sigma m ! k * path (B m) ! k - sigma m ! k * sigma m ! k * u / 2)
      in if 0 < k
         then fut - sigma m ! k * sigma m ! k * (t m ! (k - 1) - u) * (t m ! (k - 1) - u) / 2
         else fut)"

text \<open>
  The convention of the header comment of the source: the time before index 0 is 0,
  so that index \<open>j\<close> stands for the interval from \<open>t_before ts j\<close> to \<open>ts ! j\<close>.
\<close>

definition t_before :: "real list \<Rightarrow> nat \<Rightarrow> real" where
  "t_before ts j = (if j = 0 then 0 else ts ! (j - 1))"

subsection \<open>A model and a driver to run\<close>

text \<open>
  A driver that is forced to realize the components \<open>ps\<close> at whatever time it is
  advanced to, and uses nothing of its random source.
\<close>

definition forced_driver :: "real list \<Rightarrow> real \<Rightarrow> unit \<Rightarrow> brownian \<Rightarrow> brownian \<times> unit" where
  "forced_driver ps u r b = (\<lparr>time = u, path = ps\<rparr>, r)"

definition zero_buffer :: "nat \<Rightarrow> real" where
  "zero_buffer k = 0"

definition example_lmm :: lmm where
  "example_lmm =
     lmm_ctor 3 (nth [0, 1, 2]) (nth [0.02, 0.03, 0.04]) (nth [0, 0.2, 0.25])
       \<lparr>time = 0, path = [0, 0, 0]\<rparr>"

text \<open>A second model, whose first reset time lies after time 0.\<close>

definition quarterly_lmm :: lmm where
  "quarterly_lmm =
     lmm_ctor 3 (nth [0.25, 0.5, 0.75]) (nth [0.02, 0.03, 0.04]) (nth [0, 0.2, 0])
       \<lparr>time = 0, path = [0, 0, 0]\<rparr>"

section \<open>The binary search on an increasing vector\<close>

lemma upper_bound_loop_spec:
  assumes "sorted xs" and "first + len \<le> length xs"
    and "\<forall>i<first. xs ! i \<le> u"
    and "\<forall>i. first + len \<le> i \<and> i < length xs \<longrightarrow> u < xs ! i"
  shows "first \<le> upper_bound_loop xs u first len
       \<and> upper_bound_loop xs u first len \<le> first + len
       \<and> (\<forall>i<upper_bound_loop xs u first len. xs ! i \<le> u)
       \<and> (\<forall>i. upper_bound_loop xs u first len \<le> i \<and> i < length xs \<longrightarrow> u < xs ! i)"
  using assms
proof (induction xs u first len rule: upper_bound_loop.induct)
  case (1 xs u first len)
  show ?case
  proof (cases "0 < len")
    case False
    then have "upper_bound_loop xs u first len = first"
      by (subst upper_bound_loop.simps) simp
    with False "1.prems" show ?thesis by simp
  next
    case pos: True
    define half where "half = len div 2"
    define middle where "middle = first + half"
    have mid: "middle < length xs" "half < len"
      using pos "1.prems"(2) by (auto simp: half_def middle_def)
    show ?thesis
    proof (cases "u < xs ! middle")
      case True
      have above: "\<forall>i. first + half \<le> i \<and> i < length xs \<longrightarrow> u < xs ! i"
      proof (intro allI impI)
        fix i assume i: "first + half \<le> i \<and> i < length xs"
        then have "xs ! middle \<le> xs ! i"
          using \<open>sorted xs\<close> by (simp add: middle_def sorted_nth_mono)
        with True show "u < xs ! i" by simp
      qed
      have le: "first + half \<le> length xs"
        using mid by (simp add: middle_def)
      have eq: "upper_bound_loop xs u first len = upper_bound_loop xs u first half"
        using pos True
        by (simp add: upper_bound_loop.simps [of xs u first len] half_def middle_def Let_def)
      have "first \<le> upper_bound_loop xs u first half
          \<and> upper_bound_loop xs u first half \<le> first + half
          \<and> (\<forall>i<upper_bound_loop xs u first half. xs ! i \<le> u)
          \<and> (\<forall>i. upper_bound_loop xs u first half \<le> i \<and> i < length xs \<longrightarrow> u < xs ! i)"
        using "1.IH"(1) [OF pos half_def middle_def True \<open>sorted xs\<close> le "1.prems"(3) above] .
      with eq mid show ?thesis by auto
    next
      case False
      have below: "\<forall>i<middle + 1. xs ! i \<le> u"
      proof (intro allI impI)
        fix i assume "i < middle + 1"
        then have "xs ! i \<le> xs ! middle"
          using \<open>sorted xs\<close> mid(1) by (simp add: sorted_nth_mono)
        with False show "xs ! i \<le> u" by simp
      qed
      have sum: "middle + 1 + (len - half - 1) = first + len"
        using mid by (simp add: middle_def)
      have le: "middle + 1 + (len - half - 1) \<le> length xs"
        using sum "1.prems"(2) by simp
      have above: "\<forall>i. middle + 1 + (len - half - 1) \<le> i \<and> i < length xs \<longrightarrow> u < xs ! i"
        using "1.prems"(4) sum by simp
      have eq: "upper_bound_loop xs u first len
              = upper_bound_loop xs u (middle + 1) (len - half - 1)"
        using pos False
        by (simp add: upper_bound_loop.simps [of xs u first len] half_def middle_def Let_def)
      have "middle + 1 \<le> upper_bound_loop xs u (middle + 1) (len - half - 1)
          \<and> upper_bound_loop xs u (middle + 1) (len - half - 1) \<le> middle + 1 + (len - half - 1)
          \<and> (\<forall>i<upper_bound_loop xs u (middle + 1) (len - half - 1). xs ! i \<le> u)
          \<and> (\<forall>i. upper_bound_loop xs u (middle + 1) (len - half - 1) \<le> i \<and> i < length xs
                 \<longrightarrow> u < xs ! i)"
        using "1.IH"(2) [OF pos half_def middle_def False \<open>sorted xs\<close> le below above] .
      with eq sum show ?thesis by (auto simp: middle_def)
    qed
  qed
qed

lemma upper_bound_spec:
  assumes "sorted xs"
  shows "upper_bound xs u \<le> length xs
       \<and> (\<forall>i<upper_bound xs u. xs ! i \<le> u)
       \<and> (\<forall>i. upper_bound xs u \<le> i \<and> i < length xs \<longrightarrow> u < xs ! i)"
  using upper_bound_loop_spec [of xs 0 "length xs" u] assms
  by (simp add: upper_bound_def)

lemma upper_bound_loop_le: "upper_bound_loop xs u first len \<le> first + len"
proof (induction xs u first len rule: upper_bound_loop.induct)
  case (1 xs u first len)
  show ?case
  proof (cases "0 < len")
    case False
    then show ?thesis by (subst upper_bound_loop.simps) simp
  next
    case pos: True
    show ?thesis
    proof (cases "u < xs ! (first + len div 2)")
      case True
      have "upper_bound_loop xs u first len = upper_bound_loop xs u first (len div 2)"
        using pos True by (subst upper_bound_loop.simps) (simp add: Let_def)
      with "1.IH"(1) [OF pos refl refl True] show ?thesis by simp
    next
      case False
      have "upper_bound_loop xs u first len
              = upper_bound_loop xs u (first + len div 2 + 1) (len - len div 2 - 1)"
        using pos False by (subst upper_bound_loop.simps) (simp add: Let_def)
      with "1.IH"(2) [OF pos refl refl False] pos show ?thesis by simp
    qed
  qed
qed

lemma upper_bound_end_iff:
  assumes "sorted xs"
  shows "upper_bound xs u = length xs \<longleftrightarrow> \<not> (\<exists>i<length xs. u < xs ! i)"
proof
  assume "upper_bound xs u = length xs"
  with upper_bound_spec [OF assms, of u] show "\<not> (\<exists>i<length xs. u < xs ! i)"
    by (auto simp: not_less)
next
  assume none: "\<not> (\<exists>i<length xs. u < xs ! i)"
  show "upper_bound xs u = length xs"
  proof (rule ccontr)
    assume "upper_bound xs u \<noteq> length xs"
    with upper_bound_spec [OF assms, of u] have "upper_bound xs u < length xs" by simp
    with upper_bound_spec [OF assms, of u] none show False by blast
  qed
qed

lemma no_greater_iff_last:
  assumes "sorted xs" and "xs \<noteq> []"
  shows "\<not> (\<exists>i<length xs. u < xs ! i) \<longleftrightarrow> last xs \<le> (u::real)"
proof
  assume "\<not> (\<exists>i<length xs. u < xs ! i)"
  moreover have "length xs - 1 < length xs" using assms(2) by simp
  ultimately have "\<not> u < xs ! (length xs - 1)" by blast
  then show "last xs \<le> u" using assms(2) by (simp add: last_conv_nth)
next
  assume le: "last xs \<le> u"
  show "\<not> (\<exists>i<length xs. u < xs ! i)"
  proof
    assume "\<exists>i<length xs. u < xs ! i"
    then obtain i where i: "i < length xs" "u < xs ! i" by blast
    then have "xs ! i \<le> xs ! (length xs - 1)"
      using assms(1) by (intro sorted_nth_mono) auto
    with i le assms(2) show False by (simp add: last_conv_nth)
  qed
qed

section \<open>The loop of \<^verbatim>\<open>advance\<close>\<close>

lemma advance_body_Some:
  assumes "advance_body m u k f = Some f'"
  shows "f' = f(k := written m u k)"
    and "k < length (phi m)" and "k < length (sigma m)" and "k < length (path (B m))"
  using assms
  by (auto simp: advance_body_def vec_at_def brownian_at_def written_def Let_def
           split: option.splits if_splits)

lemma advance_body_None:
  "advance_body m u k f = None
     \<longleftrightarrow> \<not> (k < length (phi m) \<and> k < length (sigma m) \<and> k < length (path (B m)))"
  by (auto simp: advance_body_def vec_at_def brownian_at_def Let_def
           split: option.splits if_splits)

lemma advance_loop_error:
  "fst (advance_loop m u k f) = None \<or> fst (advance_loop m u k f) = Some UndefinedRead"
proof (induction m u k f rule: advance_loop.induct)
  case (1 m u k f)
  show ?case
  proof (cases "k < length (t m)")
    case False
    then show ?thesis by (subst advance_loop.simps) simp
  next
    case True
    show ?thesis
    proof (cases "advance_body m u k f")
      case None
      with True show ?thesis by (subst advance_loop.simps) simp
    next
      case (Some g)
      with True have "advance_loop m u k f = advance_loop m u (k + 1) g"
        by (subst advance_loop.simps) simp
      with "1.IH" [OF True Some] show ?thesis by simp
    qed
  qed
qed

lemma advance_loop_cells:
  assumes "advance_loop m u k f = (None, f')"
  shows "f' i = (if k \<le> i \<and> i < length (t m) then written m u i else f i)"
  using assms
proof (induction m u k f rule: advance_loop.induct)
  case (1 m u k f)
  show ?case
  proof (cases "k < length (t m)")
    case False
    with "1.prems" have "f' = f" by (subst (asm) advance_loop.simps) simp
    with False show ?thesis by simp
  next
    case True
    show ?thesis
    proof (cases "advance_body m u k f")
      case None
      with True "1.prems" show ?thesis by (subst (asm) advance_loop.simps) simp
    next
      case (Some g)
      with True "1.prems" have rest: "advance_loop m u (k + 1) g = (None, f')"
        by (subst (asm) advance_loop.simps) simp
      have g: "g = f(k := written m u k)" using advance_body_Some(1) [OF Some] .
      have "f' i = (if k + 1 \<le> i \<and> i < length (t m) then written m u i else g i)"
        using "1.IH" [OF True Some rest] .
      with g True show ?thesis by auto
    qed
  qed
qed

lemma advance_loop_in_range:
  "fst (advance_loop m u k f) = None
     \<longleftrightarrow> (\<forall>i. k \<le> i \<and> i < length (t m)
              \<longrightarrow> i < length (phi m) \<and> i < length (sigma m) \<and> i < length (path (B m)))"
proof (induction m u k f rule: advance_loop.induct)
  case (1 m u k f)
  show ?case
  proof (cases "k < length (t m)")
    case False
    then have "advance_loop m u k f = (None, f)" by (subst advance_loop.simps) simp
    with False show ?thesis by simp
  next
    case True
    show ?thesis
    proof (cases "advance_body m u k f")
      case None
      with True have "advance_loop m u k f = (Some UndefinedRead, f)"
        by (subst advance_loop.simps) simp
      moreover have "\<not> (k < length (phi m) \<and> k < length (sigma m) \<and> k < length (path (B m)))"
        using None by (simp add: advance_body_None)
      ultimately show ?thesis using True by auto
    next
      case (Some g)
      with True have eq: "advance_loop m u k f = advance_loop m u (k + 1) g"
        by (subst advance_loop.simps) simp
      have here: "k < length (phi m) \<and> k < length (sigma m) \<and> k < length (path (B m))"
        using advance_body_Some(2-4) [OF Some] by simp
      have split: "k \<le> i \<longleftrightarrow> i = k \<or> k + 1 \<le> i" for i by auto
      show ?thesis
        unfolding eq "1.IH" [OF True Some] using here by (auto simp: split)
    qed
  qed
qed

section \<open>The two ways out of \<^verbatim>\<open>advance\<close>\<close>

lemma advance_at_end:
  assumes "upper_bound (t m) u = length (t m)"
  shows "advance adv u f r m = (Inl OutOfRange, m, f, r)"
  using assms by (simp add: advance_def ensure_def)

lemma advance_before_end:
  assumes "upper_bound (t m) u \<noteq> length (t m)"
  shows "advance adv u f r m =
           (case fst (advance_loop (m\<lparr>B := fst (adv u r (B m))\<rparr>) u (upper_bound (t m) u) f) of
              None \<Rightarrow> Inr (upper_bound (t m) u) | Some e \<Rightarrow> Inl e,
            m\<lparr>B := fst (adv u r (B m))\<rparr>,
            snd (advance_loop (m\<lparr>B := fst (adv u r (B m))\<rparr>) u (upper_bound (t m) u) f),
            snd (adv u r (B m)))"
  using assms
  by (simp add: advance_def ensure_def Let_def split: prod.splits option.splits)

lemma advance_OutOfRange_iff:
  "fst (advance adv u f r m) = Inl OutOfRange \<longleftrightarrow> upper_bound (t m) u = length (t m)"
proof (cases "upper_bound (t m) u = length (t m)")
  case True
  then show ?thesis by (simp add: advance_at_end)
next
  case False
  then show ?thesis
    using advance_loop_error [of "m\<lparr>B := fst (adv u r (B m))\<rparr>" u "upper_bound (t m) u" f]
    by (auto simp: advance_before_end split: option.splits)
qed

lemma advance_Inr:
  assumes "advance adv u f r m = (Inr j, m', f', r')"
  shows "j = upper_bound (t m) u" and "j \<noteq> length (t m)"
    and "m' = m\<lparr>B := fst (adv u r (B m))\<rparr>" and "r' = snd (adv u r (B m))"
    and "advance_loop m' u j f = (None, f')"
proof -
  have ne: "upper_bound (t m) u \<noteq> length (t m)"
    using assms by (auto simp: advance_at_end)
  from assms show "j = upper_bound (t m) u" and "m' = m\<lparr>B := fst (adv u r (B m))\<rparr>"
    and "r' = snd (adv u r (B m))"
    by (auto simp: advance_before_end [OF ne] split: option.splits)
  with ne show "j \<noteq> length (t m)" by simp
  from assms show "advance_loop m' u j f = (None, f')"
    by (auto simp: advance_before_end [OF ne] prod_eq_iff split: option.splits)
qed

lemma advance_cells:
  assumes "advance adv u f r m = (Inr j, m', f', r')"
  shows "f' i = (if j \<le> i \<and> i < length (t m) then written m' u i else f i)"
proof -
  have "t m' = t m" using advance_Inr(3) [OF assms] by simp
  with advance_loop_cells [OF advance_Inr(5) [OF assms], of i] show ?thesis by simp
qed

lemma advance_reads_in_range:
  assumes "advance adv u f r m = (Inr j, m', f', r')" and "j \<le> i" and "i < length (t m)"
  shows "i < length (phi m) \<and> i < length (sigma m) \<and> i < length (path (B m'))"
proof -
  have m': "m' = m\<lparr>B := fst (adv u r (B m))\<rparr>" using advance_Inr(3) [OF assms(1)] .
  have "fst (advance_loop m' u j f) = None" using advance_Inr(5) [OF assms(1)] by simp
  then have "i < length (phi m') \<and> i < length (sigma m') \<and> i < length (path (B m'))"
    using assms(2,3) m' by (simp add: advance_loop_in_range)
  with m' show ?thesis by simp
qed

section \<open>Runs of the two models\<close>

lemma advance_succeeds:
  assumes "upper_bound (t m) u \<noteq> length (t m)" and "lmm_inv m"
    and "length (t m) \<le> length (path (fst (adv u r (B m))))"
  shows "fst (advance adv u f r m) = Inr (upper_bound (t m) u)"
proof -
  have "fst (advance_loop (m\<lparr>B := fst (adv u r (B m))\<rparr>) u (upper_bound (t m) u) f) = None"
    using assms(2,3) by (simp add: advance_loop_in_range lmm_inv_def)
  then show ?thesis by (simp add: advance_before_end [OF assms(1)])
qed

lemma lmm_ctor_inv: "lmm_inv (lmm_ctor n tp php sgp b0)"
  by (simp add: lmm_inv_def lmm_ctor_def)

lemma example_fields:
  "t example_lmm = [0, 1, 2]" "phi example_lmm = [2/100, 3/100, 4/100]"
  "sigma example_lmm = [0, 2/10, 25/100]" "B example_lmm = \<lparr>time = 0, path = [0, 0, 0]\<rparr>"
  by (simp_all add: example_lmm_def lmm_ctor_def upt_rec)

lemma quarterly_fields:
  "t quarterly_lmm = [1/4, 1/2, 3/4]" "phi quarterly_lmm = [2/100, 3/100, 4/100]"
  "sigma quarterly_lmm = [0, 2/10, 0]" "B quarterly_lmm = \<lparr>time = 0, path = [0, 0, 0]\<rparr>"
  by (simp_all add: quarterly_lmm_def lmm_ctor_def upt_rec)

lemma example_upper_bound:
  "upper_bound [0, 1, 2] (1/2) = 1" "upper_bound [0, 1, 2] 2 = 3"
  "upper_bound [1/4, 1/2, 3/4] 0 = 0"
  by (simp_all add: upper_bound_def upper_bound_loop.simps Let_def)

lemmas run_simps = advance_def ensure_def forced_driver_def Let_def advance_loop.simps
  advance_body_def vec_at_def brownian_at_def zero_buffer_def

lemma example_advance:
  "advance (forced_driver [0, 1/10, 1/20]) (1/2) zero_buffer () example_lmm
     = (Inr 1, example_lmm\<lparr>B := \<lparr>time = 1/2, path = [0, 1/10, 1/20]\<rparr>\<rparr>,
        zero_buffer(1 := 3 * exp (1/100) / 100 - 1/200, 2 := exp (- (1/320)) / 25 - 1/128), ())"
  by (simp add: run_simps example_fields example_upper_bound fun_eq_iff)

lemma example_advance_short:
  "advance (forced_driver [0, 1/10]) (1/2) zero_buffer () example_lmm
     = (Inl UndefinedRead, example_lmm\<lparr>B := \<lparr>time = 1/2, path = [0, 1/10]\<rparr>\<rparr>,
        zero_buffer(1 := 3 * exp (1/100) / 100 - 1/200), ())"
  by (simp add: run_simps example_fields example_upper_bound fun_eq_iff)

lemma example_advance_end:
  "advance (forced_driver [0, 1/10, 1/20]) 2 zero_buffer () example_lmm
     = (Inl OutOfRange, example_lmm, zero_buffer, ())"
  by (simp add: run_simps example_fields example_upper_bound)

lemma quarterly_advance:
  "advance (forced_driver [0, 1/10, 1/20]) 0 zero_buffer () quarterly_lmm
     = (Inr 0, quarterly_lmm\<lparr>B := \<lparr>time = 0, path = [0, 1/10, 1/20]\<rparr>\<rparr>,
        zero_buffer(0 := 1/50, 1 := 3 * exp (1/50) / 100 - 1/800, 2 := 1/25), ())"
  by (simp add: run_simps quarterly_fields example_upper_bound fun_eq_iff)


section \<open>The claims\<close>

text \<open>
  Claim C1. When \<open>advance\<close> returns the index \<open>j\<close>, every cell \<open>k\<close> of the output buffer
  with \<open>j \<le> k < n\<close> holds \<open>phi[k] * exp (sigma[k] * B[k] - sigma[k]\<^sup>2 * u / 2)\<close>, where
  \<open>B[k]\<close> is component \<open>k\<close> of the driver after it was advanced to \<open>u\<close>, minus, for
  \<open>k > 0\<close>, the correction \<open>sigma[k]\<^sup>2 * (t[k-1] - u)\<^sup>2 / 2\<close>; for \<open>k = 0\<close> nothing is
  subtracted.
\<close>

theorem advance_forward_value:
  assumes "advance adv u f r m = (Inr j, m', f', r')" and "j \<le> k" and "k < length (t m)"
  shows "B m' = fst (adv u r (B m)) \<and> k < length (path (B m'))
       \<and> f' k = phi m ! k * exp (sigma m ! k * path (B m') ! k - (sigma m ! k)\<^sup>2 * u / 2)
                  - (if k = 0 then 0 else (sigma m ! k)\<^sup>2 * (t m ! (k - 1) - u)\<^sup>2 / 2)"
proof -
  have m': "m' = m\<lparr>B := fst (adv u r (B m))\<rparr>" using advance_Inr(3) [OF assms(1)] .
  have "f' k = written m' u k" using advance_cells [OF assms(1), of k] assms(2,3) by simp
  then have "f' k = phi m ! k * exp (sigma m ! k * path (B m') ! k - (sigma m ! k)\<^sup>2 * u / 2)
                  - (if k = 0 then 0 else (sigma m ! k)\<^sup>2 * (t m ! (k - 1) - u)\<^sup>2 / 2)"
    using m' by (simp add: written_def power2_eq_square Let_def)
  moreover have "k < length (path (B m'))"
    using advance_reads_in_range [OF assms] by simp
  ultimately show ?thesis using m' by simp
qed

theorem advance_forward_value_witness:
  "advance (forced_driver [0, 1/10, 1/20]) (1/2) zero_buffer () example_lmm
     = (Inr 1, example_lmm\<lparr>B := \<lparr>time = 1/2, path = [0, 1/10, 1/20]\<rparr>\<rparr>,
        zero_buffer(1 := 3 * exp (1/100) / 100 - 1/200, 2 := exp (- (1/320)) / 25 - 1/128), ())
   \<and> (1::nat) \<le> 2 \<and> 2 < length (t example_lmm)
   \<and> (zero_buffer(1 := 3 * exp (1/100) / 100 - 1/200, 2 := exp (- (1/320)) / 25 - 1/128)) 2
       = 0.04 * exp (0.25 * 0.05 - 0.25\<^sup>2 * 0.5 / 2) - 0.25\<^sup>2 * (1 - 0.5)\<^sup>2 / 2"
  using advance_forward_value [OF example_advance, of 2] example_advance
  by (simp add: example_fields power2_eq_square)

text \<open>
  Claim C2. For strictly increasing times \<open>t[0] < ... < t[n-1]\<close> and a time \<open>u\<close> with
  \<open>0 \<le> u < t[n-1]\<close> (the driver starts at time 0 and is advanced through
  non-decreasing times), the call does not fail with \<open>OutOfRange\<close>, and the index \<open>j\<close>
  that \<open>advance\<close> returns is the smallest one with \<open>u < t[j]\<close>: every earlier time is
  at most \<open>u\<close>. Equivalently \<open>t[j-1] \<le> u < t[j]\<close>, where the time before index 0 is 0.
  The call returns such an index whenever every read of its loop is defined, that is,
  on a model whose vectors have one length and whose advanced driver has at least
  \<open>n\<close> components.
\<close>

theorem advance_returns_upper_bound:
  assumes "sorted_wrt (<) (t m)" and "t m \<noteq> []" and "0 \<le> u" and "u < last (t m)"
  shows "fst (advance adv u f r m) \<noteq> Inl OutOfRange
       \<and> (\<forall>j. fst (advance adv u f r m) = Inr j \<longrightarrow>
              j < length (t m) \<and> u < t m ! j \<and> (\<forall>i<j. t m ! i \<le> u)
            \<and> t_before (t m) j \<le> u \<and> u < t m ! j)
       \<and> (lmm_inv m \<and> length (t m) \<le> length (path (fst (adv u r (B m))))
            \<longrightarrow> (\<exists>j. fst (advance adv u f r m) = Inr j))"
proof -
  have srt: "sorted (t m)" using assms(1) by (rule strict_sorted_imp_sorted)
  define j where "j = upper_bound (t m) u"
  have "\<not> last (t m) \<le> u" using assms(4) by simp
  then have ne: "j \<noteq> length (t m)"
    unfolding j_def upper_bound_end_iff [OF srt] no_greater_iff_last [OF srt assms(2)] .
  have spec: "j \<le> length (t m)" "\<forall>i<j. t m ! i \<le> u"
    "\<forall>i. j \<le> i \<and> i < length (t m) \<longrightarrow> u < t m ! i"
    using upper_bound_spec [OF srt, of u] by (simp_all add: j_def)
  have lt: "j < length (t m)" using spec(1) ne by simp
  have above: "u < t m ! j" using spec(3) lt by simp
  have before: "t_before (t m) j \<le> u" using spec(2) assms(3) by (simp add: t_before_def)
  have no_fail: "fst (advance adv u f r m) \<noteq> Inl OutOfRange"
    using ne by (simp add: advance_OutOfRange_iff j_def)
  have returned: "k = j" if res: "fst (advance adv u f r m) = Inr k" for k
  proof -
    obtain m' f' r' where "advance adv u f r m = (Inr k, m', f', r')"
      using res by (cases "advance adv u f r m") auto
    from advance_Inr(1) [OF this] show ?thesis by (simp add: j_def)
  qed
  have succeeds: "\<exists>k. fst (advance adv u f r m) = Inr k"
    if "lmm_inv m" "length (t m) \<le> length (path (fst (adv u r (B m))))"
  proof -
    have "upper_bound (t m) u \<noteq> length (t m)" using ne by (simp add: j_def)
    then have "fst (advance adv u f r m) = Inr (upper_bound (t m) u)"
      using that by (rule advance_succeeds)
    then show ?thesis by blast
  qed
  from no_fail returned succeeds lt above before spec(2) show ?thesis by blast
qed

theorem advance_returns_upper_bound_witness:
  "sorted_wrt (<) (t example_lmm) \<and> t example_lmm \<noteq> [] \<and> (0::real) \<le> 1/2
   \<and> 1/2 < last (t example_lmm) \<and> lmm_inv example_lmm
   \<and> length (t example_lmm)
       \<le> length (path (fst (forced_driver [0, 1/10, 1/20] (1/2) () (B example_lmm))))
   \<and> fst (advance (forced_driver [0, 1/10, 1/20]) (1/2) zero_buffer () example_lmm) = Inr 1
   \<and> t_before (t example_lmm) 1 \<le> 1/2 \<and> 1/2 < t example_lmm ! 1
   \<and> sorted_wrt (<) (t quarterly_lmm) \<and> t quarterly_lmm \<noteq> [] \<and> (0::real) \<le> 0
   \<and> 0 < last (t quarterly_lmm)
   \<and> fst (advance (forced_driver [0, 1/10, 1/20]) 0 zero_buffer () quarterly_lmm) = Inr 0
   \<and> t_before (t quarterly_lmm) 0 \<le> 0 \<and> 0 < t quarterly_lmm ! 0"
  using advance_returns_upper_bound
    [of example_lmm "1/2" "forced_driver [0, 1/10, 1/20]" zero_buffer "()"]
    advance_returns_upper_bound
    [of quarterly_lmm 0 "forced_driver [0, 1/10, 1/20]" zero_buffer "()"]
  by (simp add: example_fields quarterly_fields example_advance quarterly_advance lmm_inv_def
        forced_driver_def t_before_def)

text \<open>
  Claim C3. For strictly increasing times \<open>t[0] < ... < t[n-1]\<close>, \<open>advance\<close> fails with
  \<open>OutOfRange\<close> if and only if \<open>t[n-1] \<le> u\<close>, which is exactly when no index \<open>j\<close> has
  \<open>u < t[j]\<close>; for \<open>u < t[n-1]\<close> the call returns an index (on a model whose vectors
  have one length and whose advanced driver has at least \<open>n\<close> components, so that every
  read of the loop is defined).
\<close>

theorem advance_OutOfRange_iff_last:
  assumes "sorted_wrt (<) (t m)" and "t m \<noteq> []"
  shows "(fst (advance adv u f r m) = Inl OutOfRange \<longleftrightarrow> last (t m) \<le> u)
       \<and> (fst (advance adv u f r m) = Inl OutOfRange \<longleftrightarrow> \<not> (\<exists>j<length (t m). u < t m ! j))
       \<and> (u < last (t m) \<and> lmm_inv m \<and> length (t m) \<le> length (path (fst (adv u r (B m))))
            \<longrightarrow> (\<exists>j. fst (advance adv u f r m) = Inr j))"
proof -
  have srt: "sorted (t m)" using assms(1) by (rule strict_sorted_imp_sorted)
  have a: "fst (advance adv u f r m) = Inl OutOfRange \<longleftrightarrow> \<not> (\<exists>j<length (t m). u < t m ! j)"
    by (simp only: advance_OutOfRange_iff upper_bound_end_iff [OF srt])
  have b: "fst (advance adv u f r m) = Inl OutOfRange \<longleftrightarrow> last (t m) \<le> u"
    by (simp only: a no_greater_iff_last [OF srt assms(2)])
  have c: "\<exists>j. fst (advance adv u f r m) = Inr j"
    if "u < last (t m)" "lmm_inv m" "length (t m) \<le> length (path (fst (adv u r (B m))))"
  proof -
    have "upper_bound (t m) u \<noteq> length (t m)"
      using that(1) b by (simp add: advance_OutOfRange_iff)
    then have "fst (advance adv u f r m) = Inr (upper_bound (t m) u)"
      using that(2,3) by (rule advance_succeeds)
    then show ?thesis by blast
  qed
  from a b c show ?thesis by blast
qed

theorem advance_OutOfRange_iff_last_witness:
  "sorted_wrt (<) (t example_lmm) \<and> t example_lmm \<noteq> []
   \<and> fst (advance (forced_driver [0, 1/10, 1/20]) 2 zero_buffer () example_lmm) = Inl OutOfRange
   \<and> last (t example_lmm) \<le> 2
   \<and> 1/2 < last (t example_lmm) \<and> lmm_inv example_lmm
   \<and> length (t example_lmm)
       \<le> length (path (fst (forced_driver [0, 1/10, 1/20] (1/2) () (B example_lmm))))
   \<and> fst (advance (forced_driver [0, 1/10, 1/20]) (1/2) zero_buffer () example_lmm) = Inr 1"
  using advance_OutOfRange_iff_last
    [of example_lmm "forced_driver [0, 1/10, 1/20]" 2 zero_buffer "()"]
    advance_OutOfRange_iff_last
    [of example_lmm "forced_driver [0, 1/10, 1/20]" "1/2" zero_buffer "()"]
  by (simp add: example_fields example_advance lmm_inv_def forced_driver_def)

text \<open>
  Claim C4. When \<open>advance\<close> returns the index \<open>j\<close>, the cells \<open>j, ..., n-1\<close> of the output
  buffer are the written ones: each holds the value that the loop body computes from
  the model and the advanced driver, whatever the cell held before. Every cell below
  \<open>j\<close> (and every cell from \<open>n\<close> on) holds what it held before the call.
\<close>

theorem advance_frame:
  assumes "advance adv u f r m = (Inr j, m', f', r')"
  shows "(j \<le> k \<and> k < length (t m) \<longrightarrow> f' k = written m' u k)
       \<and> (k < j \<longrightarrow> f' k = f k)
       \<and> (length (t m) \<le> k \<longrightarrow> f' k = f k)"
  using advance_cells [OF assms, of k] by simp

theorem advance_frame_witness:
  "advance (forced_driver [0, 1/10, 1/20]) (1/2) zero_buffer () example_lmm
     = (Inr 1, example_lmm\<lparr>B := \<lparr>time = 1/2, path = [0, 1/10, 1/20]\<rparr>\<rparr>,
        zero_buffer(1 := 3 * exp (1/100) / 100 - 1/200, 2 := exp (- (1/320)) / 25 - 1/128), ())
   \<and> (0::nat) < 1
   \<and> (zero_buffer(1 := 3 * exp (1/100) / 100 - 1/200, 2 := exp (- (1/320)) / 25 - 1/128)) 0
       = zero_buffer 0
   \<and> (1::nat) \<le> 2 \<and> 2 < length (t example_lmm)
   \<and> (zero_buffer(1 := 3 * exp (1/100) / 100 - 1/200, 2 := exp (- (1/320)) / 25 - 1/128)) 2
       = written (example_lmm\<lparr>B := \<lparr>time = 1/2, path = [0, 1/10, 1/20]\<rparr>\<rparr>) (1/2) 2
   \<and> length (t example_lmm) \<le> 5
   \<and> (zero_buffer(1 := 3 * exp (1/100) / 100 - 1/200, 2 := exp (- (1/320)) / 25 - 1/128)) 5
       = zero_buffer 5"
  using advance_frame [OF example_advance, of 0] advance_frame [OF example_advance, of 2]
    advance_frame [OF example_advance, of 5] example_advance
  by (simp add: example_fields)

text \<open>
  Claim C5. The model built with \<open>n = 3\<close>, \<open>t = [0, 1, 2]\<close>, \<open>phi = [0.02, 0.03, 0.04]\<close>,
  \<open>sigma = [0, 0.2, 0.25]\<close>, advanced to \<open>u = 0.5\<close> by a driver whose components are
  then \<open>[0, 0.1, 0.05]\<close>, returns 1, writes
  \<open>0.03 * exp (0.2 * 0.1 - 0.2\<^sup>2 * 0.5 / 2) - 0.2\<^sup>2 * (0 - 0.5)\<^sup>2 / 2\<close> to cell 1 and
  \<open>0.04 * exp (0.25 * 0.05 - 0.25\<^sup>2 * 0.5 / 2) - 0.25\<^sup>2 * (1 - 0.5)\<^sup>2 / 2\<close> to cell 2,
  and leaves cell 0 as it was.
\<close>

theorem advance_example:
  assumes "path (fst (adv 0.5 r b0)) = [0, 0.1, 0.05]"
  shows "case advance adv 0.5 buf r
                (lmm_ctor 3 (nth [0, 1, 2]) (nth [0.02, 0.03, 0.04]) (nth [0, 0.2, 0.25]) b0) of
           (res, m', buf', r') \<Rightarrow>
             res = Inr 1
           \<and> buf' 1 = 0.03 * exp (0.2 * 0.1 - 0.2\<^sup>2 * 0.5 / 2) - 0.2\<^sup>2 * (0 - 0.5)\<^sup>2 / 2
           \<and> buf' 2 = 0.04 * exp (0.25 * 0.05 - 0.25\<^sup>2 * 0.5 / 2) - 0.25\<^sup>2 * (1 - 0.5)\<^sup>2 / 2
           \<and> buf' 0 = buf 0"
proof -
  define m where "m = lmm_ctor 3 (nth [0, 1, 2]) (nth [0.02, 0.03, 0.04]) (nth [0, 0.2, 0.25]) b0"
  have fields: "t m = [0, 1, 2]" "phi m = [2/100, 3/100, 4/100]" "sigma m = [0, 2/10, 25/100]"
    by (simp_all add: m_def lmm_ctor_def upt_rec)
  obtain b' r' where step: "adv (1/2) r b0 = (b', r')" by (cases "adv (1/2) r b0")
  have b': "path b' = [0, 1/10, 1/20]" using assms step by simp
  have Bm: "B m = b0" by (simp add: m_def lmm_ctor_def)
  show ?thesis
    unfolding m_def [symmetric]
    by (simp add: advance_def ensure_def Let_def advance_loop.simps advance_body_def vec_at_def
          brownian_at_def fields example_upper_bound step b' Bm power2_eq_square)
qed

theorem advance_example_witness:
  "path (fst (forced_driver [0, 0.1, 0.05] 0.5 () \<lparr>time = 0, path = [0, 0, 0]\<rparr>)) = [0, 0.1, 0.05]
   \<and> fst (advance (forced_driver [0, 0.1, 0.05]) 0.5 zero_buffer ()
            (lmm_ctor 3 (nth [0, 1, 2]) (nth [0.02, 0.03, 0.04]) (nth [0, 0.2, 0.25])
               \<lparr>time = 0, path = [0, 0, 0]\<rparr>)) = Inr 1
   \<and> fst (snd (snd (advance (forced_driver [0, 0.1, 0.05]) 0.5 zero_buffer ()
            (lmm_ctor 3 (nth [0, 1, 2]) (nth [0.02, 0.03, 0.04]) (nth [0, 0.2, 0.25])
               \<lparr>time = 0, path = [0, 0, 0]\<rparr>)))) 1
       = 0.03 * exp (0.2 * 0.1 - 0.2\<^sup>2 * 0.5 / 2) - 0.2\<^sup>2 * (0 - 0.5)\<^sup>2 / 2"
  using advance_example [of "forced_driver [0, 0.1, 0.05]" "()" "\<lparr>time = 0, path = [0, 0, 0]\<rparr>" zero_buffer]
  by (simp add: forced_driver_def split: prod.splits)

text \<open>
  Claim C6. When \<open>advance\<close> returns the index \<open>j\<close> and \<open>sigma[k] = 0\<close> for some \<open>k\<close> with
  \<open>j \<le> k < n\<close>, cell \<open>k\<close> of the output buffer holds \<open>phi[k]\<close>, whatever the driver
  realized (the operation \<open>adv\<close> is arbitrary); in particular at \<open>u = 0\<close> with \<open>j = 0\<close>
  and \<open>sigma[0] = 0\<close> cell 0 holds \<open>phi[0]\<close>.
\<close>

theorem advance_zero_sigma:
  assumes "advance adv u f r m = (Inr j, m', f', r')"
  shows "(j \<le> k \<and> k < length (t m) \<and> sigma m ! k = 0 \<longrightarrow> f' k = phi m ! k)
       \<and> (u = 0 \<and> j = 0 \<and> sigma m ! 0 = 0 \<longrightarrow> f' 0 = phi m ! 0)"
proof -
  have m': "m' = m\<lparr>B := fst (adv u r (B m))\<rparr>" using advance_Inr(3) [OF assms] .
  have zero: "written m' u i = phi m ! i" if "sigma m ! i = 0" for i
    using that m' by (simp add: written_def Let_def)
  have pos: "0 < length (t m)"
    using advance_Inr(1,2) [OF assms] by (cases "t m") (simp_all add: upper_bound_def upper_bound_loop.simps)
  have a: "j \<le> k \<and> k < length (t m) \<and> sigma m ! k = 0 \<longrightarrow> f' k = phi m ! k"
    using advance_cells [OF assms, of k] zero [of k] by simp
  have b: "j = 0 \<and> sigma m ! 0 = 0 \<longrightarrow> f' 0 = phi m ! 0"
    using advance_cells [OF assms, of 0] zero [of 0] pos by simp
  from a b show ?thesis by blast
qed

theorem advance_zero_sigma_witness:
  "advance (forced_driver [0, 1/10, 1/20]) 0 zero_buffer () quarterly_lmm
     = (Inr 0, quarterly_lmm\<lparr>B := \<lparr>time = 0, path = [0, 1/10, 1/20]\<rparr>\<rparr>,
        zero_buffer(0 := 1/50, 1 := 3 * exp (1/50) / 100 - 1/800, 2 := 1/25), ())
   \<and> (0::nat) \<le> 2 \<and> 2 < length (t quarterly_lmm) \<and> sigma quarterly_lmm ! 2 = 0
   \<and> (zero_buffer(0 := 1/50, 1 := 3 * exp (1/50) / 100 - 1/800, 2 := 1/25)) 2
       = phi quarterly_lmm ! 2
   \<and> sigma quarterly_lmm ! 0 = 0
   \<and> (zero_buffer(0 := 1/50, 1 := 3 * exp (1/50) / 100 - 1/800, 2 := 1/25)) 0
       = phi quarterly_lmm ! 0"
  using advance_zero_sigma [OF quarterly_advance, of 2] quarterly_advance
  by (simp add: quarterly_fields)

text \<open>
  Claim C7. When \<open>advance\<close> returns the index \<open>j\<close>, for every \<open>k\<close> with
  \<open>max j 1 \<le> k < n\<close> and \<open>sigma[k] \<noteq> 0\<close> the forward value written to cell \<open>k\<close> is at
  most the futures value \<open>phi[k] * exp (sigma[k] * B[k] - sigma[k]\<^sup>2 * u / 2)\<close>.
\<close>

theorem advance_forward_le_futures:
  assumes "advance adv u f r m = (Inr j, m', f', r')"
    and "max j 1 \<le> k" and "k < length (t m)" and "sigma m ! k \<noteq> 0"
  shows "f' k \<le> phi m ! k * exp (sigma m ! k * path (B m') ! k - (sigma m ! k)\<^sup>2 * u / 2)"
proof -
  have m': "m' = m\<lparr>B := fst (adv u r (B m))\<rparr>" using advance_Inr(3) [OF assms(1)] .
  have "f' k = written m' u k" using advance_cells [OF assms(1), of k] assms(2,3) by simp
  moreover have "written m' u k
      = phi m ! k * exp (sigma m ! k * path (B m') ! k - (sigma m ! k)\<^sup>2 * u / 2)
        - (sigma m ! k)\<^sup>2 * (t m ! (k - 1) - u)\<^sup>2 / 2"
    using m' assms(2) by (simp add: written_def power2_eq_square Let_def)
  moreover have "0 \<le> (sigma m ! k)\<^sup>2 * (t m ! (k - 1) - u)\<^sup>2 / 2" by simp
  ultimately show ?thesis by linarith
qed

theorem advance_forward_le_futures_witness:
  "advance (forced_driver [0, 1/10, 1/20]) (1/2) zero_buffer () example_lmm
     = (Inr 1, example_lmm\<lparr>B := \<lparr>time = 1/2, path = [0, 1/10, 1/20]\<rparr>\<rparr>,
        zero_buffer(1 := 3 * exp (1/100) / 100 - 1/200, 2 := exp (- (1/320)) / 25 - 1/128), ())
   \<and> max (1::nat) 1 \<le> 1 \<and> 1 < length (t example_lmm) \<and> sigma example_lmm ! 1 \<noteq> 0
   \<and> (zero_buffer(1 := 3 * exp (1/100) / 100 - 1/200, 2 := exp (- (1/320)) / 25 - 1/128)) 1
       \<le> 0.03 * exp (0.2 * 0.1 - 0.2\<^sup>2 * 0.5 / 2)"
  using advance_forward_le_futures [OF example_advance, of 1] example_advance
  by (simp add: example_fields power2_eq_square)


text \<open>
  Claim C8. A call of \<open>advance\<close> that fails with \<open>OutOfRange\<close> leaves the model with its
  driver, the buffer and the random source as they were: the failure comes before
  the driver is advanced. So every later call, and \<open>reset\<close>, behaves on the state after
  the failed call as it does on the state before it.
\<close>

theorem advance_OutOfRange_unchanged:
  assumes "fst (advance adv u f r m) = Inl OutOfRange"
  shows "advance adv u f r m = (Inl OutOfRange, m, f, r)
       \<and> (case advance adv u f r m of
            (res, m', f', r') \<Rightarrow>
              B m' = B m \<and> r' = r
            \<and> advance adv2 u2 f2 r' m' = advance adv2 u2 f2 r m
            \<and> reset m' = reset m)"
proof -
  have "upper_bound (t m) u = length (t m)"
    using assms by (simp add: advance_OutOfRange_iff)
  then have "advance adv u f r m = (Inl OutOfRange, m, f, r)" by (rule advance_at_end)
  then show ?thesis by simp
qed

theorem advance_OutOfRange_unchanged_witness:
  "fst (advance (forced_driver [0, 1/10, 1/20]) 2 zero_buffer () example_lmm) = Inl OutOfRange
   \<and> advance (forced_driver [0, 1/10, 1/20]) 2 zero_buffer () example_lmm
       = (Inl OutOfRange, example_lmm, zero_buffer, ())"
  using advance_OutOfRange_unchanged [of "forced_driver [0, 1/10, 1/20]" 2 zero_buffer "()" example_lmm]
  by (simp add: example_advance_end)

text \<open>
  Claim C9. The vectors \<open>t\<close>, \<open>phi\<close> and \<open>sigma\<close> are the copies made by the constructor
  and no operation changes them: \<open>reset\<close> changes the driver only, \<open>advance\<close> changes
  the driver only (besides the caller's buffer and random source), whatever its
  outcome, and \<open>size\<close> is a query that gives the length of \<open>t\<close>.
\<close>

theorem parameters_unchanged:
  "t (lmm_ctor n tp php sgp b0) = map tp [0..<n]
   \<and> phi (lmm_ctor n tp php sgp b0) = map php [0..<n]
   \<and> sigma (lmm_ctor n tp php sgp b0) = map sgp [0..<n]
   \<and> reset m = m\<lparr>B := B (reset m)\<rparr>
   \<and> t (reset m) = t m \<and> phi (reset m) = phi m \<and> sigma (reset m) = sigma m
   \<and> (case advance adv u f r m of
        (res, m', f', r') \<Rightarrow>
          m' = m\<lparr>B := B m'\<rparr> \<and> t m' = t m \<and> phi m' = phi m \<and> sigma m' = sigma m)
   \<and> size_lmm m = length (t m)
   \<and> size_lmm (reset m) = size_lmm m"
proof -
  have "case advance adv u f r m of
          (res, m', f', r') \<Rightarrow>
            m' = m\<lparr>B := B m'\<rparr> \<and> t m' = t m \<and> phi m' = phi m \<and> sigma m' = sigma m"
  proof (cases "upper_bound (t m) u = length (t m)")
    case True
    then show ?thesis by (simp add: advance_at_end)
  next
    case False
    then show ?thesis by (simp add: advance_before_end)
  qed
  then show ?thesis
    by (simp add: lmm_ctor_def reset_def size_lmm_def)
qed

text \<open>
  Claim C10. \<open>advance\<close> reads the driver's components \<open>j, ..., n-1\<close> without comparing
  the index with the driver's dimension \<open>d\<close>: on a model whose vectors have one length,
  a call that passes the \<^verbatim>\<open>ensure\<close> returns an index if and only if \<open>n \<le> d\<close> for the
  advanced driver, and runs into a read that is out of range if and only if \<open>d < n\<close>.
\<close>

theorem advance_driver_reads:
  assumes "lmm_inv m" and "fst (advance adv u f r m) \<noteq> Inl OutOfRange"
  shows "((\<exists>j. fst (advance adv u f r m) = Inr j)
            \<longleftrightarrow> length (t m) \<le> length (path (fst (adv u r (B m)))))
       \<and> (fst (advance adv u f r m) = Inl UndefinedRead
            \<longleftrightarrow> length (path (fst (adv u r (B m)))) < length (t m))"
proof -
  define j where "j = upper_bound (t m) u"
  define m' where "m' = m\<lparr>B := fst (adv u r (B m))\<rparr>"
  define d where "d = length (path (fst (adv u r (B m))))"
  have ne: "j \<noteq> length (t m)"
    using assms(2) by (simp add: advance_OutOfRange_iff j_def)
  have "j \<le> length (t m)"
    using upper_bound_loop_le [of "t m" u 0 "length (t m)"] by (simp add: j_def upper_bound_def)
  with ne have lt: "j < length (t m)" by simp
  have res: "fst (advance adv u f r m)
               = (case fst (advance_loop m' u j f) of None \<Rightarrow> Inr j | Some e \<Rightarrow> Inl e)"
    using ne unfolding j_def m'_def by (simp add: advance_before_end)
  have "fst (advance_loop m' u j f) = None \<longleftrightarrow> (\<forall>i. j \<le> i \<and> i < length (t m) \<longrightarrow> i < d)"
    using assms(1) by (auto simp: advance_loop_in_range m'_def d_def lmm_inv_def)
  also have "\<dots> \<longleftrightarrow> length (t m) \<le> d"
  proof
    assume all: "\<forall>i. j \<le> i \<and> i < length (t m) \<longrightarrow> i < d"
    have "j \<le> length (t m) - 1 \<and> length (t m) - 1 < length (t m)" using lt by arith
    with all have "length (t m) - 1 < d" by blast
    then show "length (t m) \<le> d" by simp
  qed auto
  finally have ok: "fst (advance_loop m' u j f) = None \<longleftrightarrow> length (t m) \<le> d" .
  have "fst (advance_loop m' u j f) = None \<or> fst (advance_loop m' u j f) = Some UndefinedRead"
    by (rule advance_loop_error)
  with res ok show ?thesis
    unfolding d_def [symmetric] by (auto split: option.splits)
qed

theorem advance_driver_reads_witness:
  "lmm_inv example_lmm
   \<and> fst (advance (forced_driver [0, 1/10]) (1/2) zero_buffer () example_lmm) \<noteq> Inl OutOfRange
   \<and> fst (advance (forced_driver [0, 1/10]) (1/2) zero_buffer () example_lmm) = Inl UndefinedRead
   \<and> length (path (fst (forced_driver [0, 1/10] (1/2) () (B example_lmm))))
       < length (t example_lmm)"
  using advance_driver_reads [of example_lmm "forced_driver [0, 1/10]" "1/2" zero_buffer "()"]
  by (simp add: example_advance_short example_fields lmm_inv_def forced_driver_def)

end
